theory Spec2Isabelle
  imports Main "HOL-Library.Word"
begin

section \<open>The document chunking engine of src/lib/awsTitan.ts\<close>

text \<open>
  The chunker is a set of pure TypeScript functions over strings and chunk records.
  A JavaScript string is a sequence of UTF-16 code units and \<^verbatim>\<open>length\<close> counts
  code units, so a string is modelled as a list of 16-bit words. JavaScript numbers that
  hold sizes and counters are modelled as unbounded integers: the options are integers
  by the interface's intent, and counters never come near \<^verbatim>\<open>2^53\<close>.
\<close>

subsection \<open>Strings\<close>

type_synonym jschar = "16 word"
type_synonym jsstring = "jschar list"

text \<open>A string literal of the source, written with Isabelle's ASCII characters.\<close>

definition js :: "string \<Rightarrow> jsstring" where
  "js s = map (\<lambda>c. of_nat (of_char c)) s"

text \<open>
  \<^verbatim>\<open>String.prototype.trim\<close> strips the code units of WhiteSpace and LineTerminator
  of ECMAScript: TAB, LF, VT, FF, CR, SP, NBSP, U+1680, U+2000..U+200A, U+2028, U+2029,
  U+202F, U+205F, U+3000 and U+FEFF.
\<close>

definition is_ws :: "jschar \<Rightarrow> bool" where
  "is_ws c = (let n = unat c in
     (9 \<le> n \<and> n \<le> 13) \<or> n = 32 \<or> n = 160 \<or> n = 5760 \<or> (8192 \<le> n \<and> n \<le> 8202) \<or>
     n = 8232 \<or> n = 8233 \<or> n = 8239 \<or> n = 8287 \<or> n = 12288 \<or> n = 65279)"

definition trim :: "jsstring \<Rightarrow> jsstring" where
  "trim s = rev (dropWhile is_ws (rev (dropWhile is_ws s)))"

definition dot :: jschar where
  "dot = 46"

definition space :: jschar where
  "space = 32"

text \<open>The character class \<^verbatim>\<open>[.!?]\<close> of the sentence splitter.\<close>

definition is_term :: "jschar \<Rightarrow> bool" where
  "is_term c = (c = 46 \<or> c = 33 \<or> c = 63)"

text \<open>
  \<^verbatim>\<open>text.split(/[.!?]+/)\<close>: the pieces between the maximal runs of terminators. The
  pattern never matches the empty string, so a text that starts (ends) with a run yields
  an empty first (last) piece, and the empty text yields one empty piece.
\<close>

function js_split :: "jsstring \<Rightarrow> jsstring list" where
  "js_split [] = [[]]"
| "js_split (c # cs) =
     (if is_term c then [] # js_split (dropWhile is_term cs)
      else (case js_split cs of [] \<Rightarrow> [[c]] | s # ss \<Rightarrow> (c # s) # ss))"
  by pat_completeness auto
termination
  by (relation "measure length") (auto simp: le_imp_less_Suc length_dropWhile_le)

text \<open>
  \<^verbatim>\<open>s.slice(start)\<close> with one argument: a negative start counts from the end, and
  both ends are clamped. \<^verbatim>\<open>-0\<close> is \<^verbatim>\<open>0\<close>, so \<^verbatim>\<open>s.slice(-0)\<close> is the whole string.
\<close>

definition js_slice :: "jsstring \<Rightarrow> int \<Rightarrow> jsstring" where
  "js_slice s start =
     (let len = int (length s);
          from = (if start < 0 then max (len + start) 0 else min start len)
      in drop (nat from) s)"

text \<open>\<^verbatim>\<open>s.lastIndexOf(c)\<close> for a single code unit: \<^verbatim>\<open>-1\<close> when it does not occur.\<close>

definition lastIndexOf :: "jsstring \<Rightarrow> jschar \<Rightarrow> int" where
  "lastIndexOf s c =
     (if c \<in> set s then int (length s) - 1 - int (length (takeWhile (\<lambda>x. x \<noteq> c) (rev s)))
      else - 1)"

text \<open>
  The decimal rendering of a counter in a template literal, \<^verbatim>\<open>`${n}`\<close>, for a
  non-negative integer.
\<close>

definition digit :: "nat \<Rightarrow> jschar" where
  "digit d = of_nat (48 + d)"

function show_nat :: "nat \<Rightarrow> jsstring" where
  "show_nat n = (if n < 10 then [digit n] else show_nat (n div 10) @ [digit (n mod 10)])"
  by pat_completeness auto
termination
  by (relation "measure id") auto

declare show_nat.simps [simp del]

subsection \<open>Chunks and options\<close>

record metadata =
  filename :: jsstring
  page :: "int option"
  chunkIndex :: int
  totalChunks :: int

record DocumentChunk =
  chunk_id :: jsstring
  content :: jsstring
  metadata :: metadata

record ChunkingOptions =
  chunkSize :: int
  chunkOverlap :: int
  minChunkSize :: int

text \<open>\<^verbatim>\<open>Partial<ChunkingOptions>\<close>: every field may be absent.\<close>

record PartialChunkingOptions =
  opt_chunkSize :: "int option"
  opt_chunkOverlap :: "int option"
  opt_minChunkSize :: "int option"

definition DEFAULT_CHUNKING_OPTIONS :: ChunkingOptions where
  "DEFAULT_CHUNKING_OPTIONS = \<lparr>chunkSize = 1000, chunkOverlap = 200, minChunkSize = 100\<rparr>"

definition no_options :: PartialChunkingOptions where
  "no_options = \<lparr>opt_chunkSize = None, opt_chunkOverlap = None, opt_minChunkSize = None\<rparr>"

text \<open>The spread \<^verbatim>\<open>{...DEFAULT_CHUNKING_OPTIONS, ...options}\<close>.\<close>

definition resolve_options :: "PartialChunkingOptions \<Rightarrow> ChunkingOptions" where
  "resolve_options options =
     \<lparr>chunkSize = (case opt_chunkSize options of
                     None \<Rightarrow> chunkSize DEFAULT_CHUNKING_OPTIONS | Some v \<Rightarrow> v),
      chunkOverlap = (case opt_chunkOverlap options of
                     None \<Rightarrow> chunkOverlap DEFAULT_CHUNKING_OPTIONS | Some v \<Rightarrow> v),
      minChunkSize = (case opt_minChunkSize options of
                     None \<Rightarrow> minChunkSize DEFAULT_CHUNKING_OPTIONS | Some v \<Rightarrow> v)\<rparr>"

subsection \<open>getOverlapText\<close>

definition getOverlapText :: "jsstring \<Rightarrow> int \<Rightarrow> jsstring" where
  "getOverlapText text overlapSize =
     (if int (length text) \<le> overlapSize then text
      else
        let endText = js_slice text (- overlapSize);
            lastSentenceStart = lastIndexOf endText dot
        in if lastSentenceStart > 0 then trim (js_slice endText (lastSentenceStart + 1))
           else endText)"

subsection \<open>chunkText\<close>

text \<open>
  One iteration of the \<^verbatim>\<open>for (const sentence of sentences)\<close> loop. The loop state is
  the array \<^verbatim>\<open>chunks\<close>, the accumulator \<^verbatim>\<open>currentChunk\<close> and the counter
  \<^verbatim>\<open>chunkIndex\<close>.
\<close>

definition mk_chunk :: "jsstring \<Rightarrow> jsstring \<Rightarrow> nat \<Rightarrow> DocumentChunk" where
  "mk_chunk fname currentChunk idx =
     \<lparr>chunk_id = fname @ js ''-chunk-'' @ show_nat idx,
      content = trim currentChunk,
      metadata = \<lparr>filename = fname, page = None, chunkIndex = int idx, totalChunks = 0\<rparr>\<rparr>"

definition chunk_step ::
  "jsstring \<Rightarrow> ChunkingOptions \<Rightarrow> DocumentChunk list \<times> jsstring \<times> nat \<Rightarrow> jsstring \<Rightarrow>
   DocumentChunk list \<times> jsstring \<times> nat" where
  "chunk_step fname opts st sentence =
     (case st of (chunks, currentChunk, idx) \<Rightarrow>
        let sentenceText = trim sentence @ [dot] in
        if int (length currentChunk) + int (length sentenceText) > chunkSize opts
           \<and> int (length currentChunk) \<ge> minChunkSize opts
        then
          (chunks @ [mk_chunk fname currentChunk idx],
           getOverlapText currentChunk (chunkOverlap opts) @ [space] @ sentenceText,
           idx + 1)
        else
          (chunks,
           currentChunk @ (if currentChunk \<noteq> [] then [space] else []) @ sentenceText,
           idx))"

fun chunk_loop ::
  "jsstring \<Rightarrow> ChunkingOptions \<Rightarrow> DocumentChunk list \<times> jsstring \<times> nat \<Rightarrow> jsstring list \<Rightarrow>
   DocumentChunk list \<times> jsstring \<times> nat" where
  "chunk_loop fname opts st [] = st"
| "chunk_loop fname opts st (sentence # sentences) =
     chunk_loop fname opts (chunk_step fname opts st sentence) sentences"

text \<open>The sentences of a text: the pieces of the split that are not blank.\<close>

definition sentences_of :: "jsstring \<Rightarrow> jsstring list" where
  "sentences_of text = filter (\<lambda>s. length (trim s) > 0) (js_split text)"

text \<open>\<^verbatim>\<open>chunks.forEach(chunk => { chunk.metadata.totalChunks = chunks.length })\<close>.\<close>

definition set_totalChunks :: "int \<Rightarrow> DocumentChunk \<Rightarrow> DocumentChunk" where
  "set_totalChunks n chunk = chunk\<lparr>metadata := (metadata chunk)\<lparr>totalChunks := n\<rparr>\<rparr>"

definition chunkText ::
  "jsstring \<Rightarrow> jsstring \<Rightarrow> PartialChunkingOptions \<Rightarrow> DocumentChunk list" where
  "chunkText text fname options =
     (let opts = resolve_options options in
      if text = [] \<or> length (trim text) = 0 then []
      else
        let sentences = sentences_of text in
        if length sentences = 0 then []
        else
          case chunk_loop fname opts ([], [], 0) sentences of
            (chunks, currentChunk, idx) \<Rightarrow>
              let chunks' = (if length (trim currentChunk) > 0
                             then chunks @ [mk_chunk fname currentChunk idx] else chunks)
              in map (set_totalChunks (int (length chunks'))) chunks')"

subsection \<open>chunkByPages\<close>

text \<open>
  \<^verbatim>\<open>pageChunks.map((chunk, chunkIndex) => ...)\<close>: the callback receives the chunk and
  its position in the page's array, and builds a copy with a new id and a page number.
\<close>

definition with_page_info :: "jsstring \<Rightarrow> nat \<Rightarrow> DocumentChunk \<Rightarrow> nat \<Rightarrow> DocumentChunk" where
  "with_page_info fname pageIndex chunk idx =
     chunk\<lparr>chunk_id := fname @ js ''-page'' @ show_nat (pageIndex + 1) @ js ''-chunk-''
                          @ show_nat idx,
           metadata := (metadata chunk)\<lparr>page := Some (int (pageIndex + 1))\<rparr>\<rparr>"

fun map_page_info :: "jsstring \<Rightarrow> nat \<Rightarrow> nat \<Rightarrow> DocumentChunk list \<Rightarrow> DocumentChunk list" where
  "map_page_info fname pageIndex idx [] = []"
| "map_page_info fname pageIndex idx (chunk # rest) =
     with_page_info fname pageIndex chunk idx # map_page_info fname pageIndex (idx + 1) rest"

text \<open>
  \<^verbatim>\<open>pages.forEach((pageText, pageIndex) => ...)\<close>, with the array \<^verbatim>\<open>allChunks\<close>
  it appends to as the state.
\<close>

fun pages_loop ::
  "jsstring \<Rightarrow> PartialChunkingOptions \<Rightarrow> nat \<Rightarrow> DocumentChunk list \<Rightarrow> jsstring list \<Rightarrow>
   DocumentChunk list" where
  "pages_loop fname options pageIndex allChunks [] = allChunks"
| "pages_loop fname options pageIndex allChunks (pageText # rest) =
     (let pageChunks = chunkText pageText fname options;
          chunksWithPageInfo = map_page_info fname pageIndex 0 pageChunks
      in pages_loop fname options (pageIndex + 1) (allChunks @ chunksWithPageInfo) rest)"

definition chunkByPages ::
  "jsstring list \<Rightarrow> jsstring \<Rightarrow> PartialChunkingOptions \<Rightarrow> DocumentChunk list" where
  "chunkByPages pages fname options = pages_loop fname options 0 [] pages"

subsection \<open>mergeSmallChunks\<close>

text \<open>The object built in the body of the inner loop.\<close>

definition absorb :: "DocumentChunk \<Rightarrow> DocumentChunk \<Rightarrow> DocumentChunk" where
  "absorb currentChunk nextChunk =
     currentChunk\<lparr>content := content currentChunk @ [space] @ content nextChunk,
                  metadata := (metadata currentChunk)
                     \<lparr>totalChunks := totalChunks (metadata currentChunk) - 1\<rparr>\<rparr>"

text \<open>
  The inner \<^verbatim>\<open>while\<close> loop, on the index \<^verbatim>\<open>i\<close> and \<^verbatim>\<open>currentChunk\<close>; it returns
  both as they are when the loop ends.
\<close>

function merge_inner ::
  "DocumentChunk list \<Rightarrow> int \<Rightarrow> nat \<Rightarrow> DocumentChunk \<Rightarrow> nat \<times> DocumentChunk" where
  "merge_inner chunks minSize i currentChunk =
     (if i + 1 < length chunks
         \<and> int (length (content currentChunk)) < minSize
         \<and> filename (metadata (chunks ! (i + 1))) = filename (metadata currentChunk)
      then merge_inner chunks minSize (i + 1) (absorb currentChunk (chunks ! (i + 1)))
      else (i, currentChunk))"
  by pat_completeness auto
termination
  by (relation "measure (\<lambda>(chunks, minSize, i, currentChunk). length chunks - i)") auto

declare merge_inner.simps [simp del]

lemma merge_inner_ge: "i \<le> fst (merge_inner chunks minSize i currentChunk)"
proof (induction chunks minSize i currentChunk rule: merge_inner.induct)
  case (1 chunks minSize i currentChunk)
  show ?case
  proof (cases "i + 1 < length chunks
         \<and> int (length (content currentChunk)) < minSize
         \<and> filename (metadata (chunks ! (i + 1))) = filename (metadata currentChunk)")
    case True
    from "1.IH" [OF True] True show ?thesis
      by (subst merge_inner.simps) simp
  next
    case False
    then show ?thesis
      by (subst merge_inner.simps) auto
  qed
qed

lemma merge_inner_index:
  "merge_inner chunks minSize i currentChunk = (i', currentChunk') \<Longrightarrow> i \<le> i'"
  using merge_inner_ge [of i chunks minSize currentChunk] by simp

text \<open>The outer \<^verbatim>\<open>while (i < chunks.length)\<close> loop, with \<^verbatim>\<open>mergedChunks\<close> as the state.\<close>

function merge_outer ::
  "DocumentChunk list \<Rightarrow> int \<Rightarrow> nat \<Rightarrow> DocumentChunk list \<Rightarrow> DocumentChunk list" where
  "merge_outer chunks minSize i mergedChunks =
     (if i < length chunks then
        (case merge_inner chunks minSize i (chunks ! i) of
           (i', currentChunk) \<Rightarrow> merge_outer chunks minSize (i' + 1) (mergedChunks @ [currentChunk]))
      else mergedChunks)"
  by pat_completeness auto
termination
  apply (relation "measure (\<lambda>(chunks, minSize, i, mergedChunks). length chunks - i)")
   apply simp
  apply (auto dest!: merge_inner_index [OF sym])
  done

declare merge_outer.simps [simp del]

text \<open>
  \<^verbatim>\<open>mergeSmallChunks(chunks, minSize)\<close>. The parameter's default of 100 applies when
  the caller omits the argument.
\<close>

definition mergeSmallChunks :: "DocumentChunk list \<Rightarrow> int \<Rightarrow> DocumentChunk list" where
  "mergeSmallChunks chunks minSize = merge_outer chunks minSize 0 []"

subsection \<open>The argument of getOverlapText\<close>

text \<open>
  \<^verbatim>\<open>getOverlapText\<close> is private to the module and has one call, in the loop of
  \<^verbatim>\<open>chunkText\<close>, on \<^verbatim>\<open>currentChunk\<close>. That accumulator is empty before the first
  sentence; afterwards it ends in the \<^verbatim>\<open>.\<close> appended to a sentence that is not blank, so
  it has at least two characters (\<open>chunk_loop_accumulator\<close> below).
\<close>

definition accumulator_shape :: "jsstring \<Rightarrow> bool" where
  "accumulator_shape cur \<longleftrightarrow> cur = [] \<or> (2 \<le> length cur \<and> last cur = dot)"

subsection \<open>Notions of the specification\<close>

text \<open>
  The specification speaks of the last \<^verbatim>\<open>N\<close> characters of a text and of the position
  of the last \<^verbatim>\<open>.\<close> in a string. These two definitions follow its words, not the code.
\<close>

definition lastN :: "nat \<Rightarrow> jsstring \<Rightarrow> jsstring" where
  "lastN n s = drop (length s - n) s"

definition last_dot_at :: "jsstring \<Rightarrow> nat \<Rightarrow> bool" where
  "last_dot_at s p \<longleftrightarrow> p < length s \<and> s ! p = dot \<and> (\<forall>q \<in> {p + 1..<length s}. s ! q \<noteq> dot)"

text \<open>
  The specification's account of the page adapter: the chunks of page \<^verbatim>\<open>p\<close> (counted
  from 1) are those of \<^verbatim>\<open>chunkText\<close> on that page, the one at position \<^verbatim>\<open>i\<close> (counted
  from 0) with its id replaced by \<^verbatim>\<open>`${filename}-page${p}-chunk-${i}`\<close> and its
  \<^verbatim>\<open>metadata.page\<close> set to \<^verbatim>\<open>p\<close>, everything else kept; the result is their
  concatenation in page order.
\<close>

definition relabel :: "jsstring \<Rightarrow> nat \<Rightarrow> nat \<Rightarrow> DocumentChunk \<Rightarrow> DocumentChunk" where
  "relabel fname p i c =
     \<lparr>chunk_id = fname @ js ''-page'' @ show_nat p @ js ''-chunk-'' @ show_nat i,
      content = content c,
      metadata = \<lparr>filename = filename (metadata c), page = Some (int p),
                  chunkIndex = chunkIndex (metadata c),
                  totalChunks = totalChunks (metadata c)\<rparr>\<rparr>"

definition page_chunks ::
  "jsstring list \<Rightarrow> jsstring \<Rightarrow> PartialChunkingOptions \<Rightarrow> nat \<Rightarrow> DocumentChunk list" where
  "page_chunks pages fname options p =
     (let cs = chunkText (pages ! (p - 1)) fname options
      in map (\<lambda>i. relabel fname p i (cs ! i)) [0..<length cs])"

definition chunkByPages_spec ::
  "jsstring list \<Rightarrow> jsstring \<Rightarrow> PartialChunkingOptions \<Rightarrow> DocumentChunk list" where
  "chunkByPages_spec pages fname options =
     concat (map (page_chunks pages fname options) [1..<length pages + 1])"

text \<open>
  The slack \<^verbatim>\<open>S\<close> of the size bound: the greatest length of a sentence as the assembler
  appends it, trimmed and with its \<^verbatim>\<open>.\<close>, over the sentences of the text (0 when there
  is none).
\<close>

definition sentence_slack :: "jsstring \<Rightarrow> nat" where
  "sentence_slack text = foldr (\<lambda>s m. max (length (trim s) + 1) m) (sentences_of text) 0"

text \<open>
  Joining strings with single spaces, as \<^verbatim>\<open>Array.prototype.join(' ')\<close> does: this is how
  the specification speaks of the text that a list of chunks carries.
\<close>

fun join_sp :: "jsstring list \<Rightarrow> jsstring" where
  "join_sp [] = []"
| "join_sp [x] = x"
| "join_sp (x # y # ys) = x @ [space] @ join_sp (y # ys)"

subsection \<open>The merger as a recursion on the list\<close>

text \<open>
  The two loops of \<^verbatim>\<open>mergeSmallChunks\<close> walk the array by index. The proofs use the same
  computation written on the rest of the list: \<open>absorb_run\<close> is the inner loop, which
  returns the merged chunk and the chunks it has not consumed, and \<open>merge_list\<close> is the
  outer loop. They are shown equal to the index loops below (\<open>mergeSmallChunks_merge_list\<close>).
\<close>

fun absorb_run ::
  "int \<Rightarrow> DocumentChunk \<Rightarrow> DocumentChunk list \<Rightarrow> DocumentChunk \<times> DocumentChunk list" where
  "absorb_run minSize currentChunk [] = (currentChunk, [])"
| "absorb_run minSize currentChunk (nextChunk # rest) =
     (if int (length (content currentChunk)) < minSize
         \<and> filename (metadata nextChunk) = filename (metadata currentChunk)
      then absorb_run minSize (absorb currentChunk nextChunk) rest
      else (currentChunk, nextChunk # rest))"

lemma absorb_run_length:
  "absorb_run minSize currentChunk chunks = (currentChunk', rest) \<Longrightarrow> length rest \<le> length chunks"
proof (induction chunks arbitrary: currentChunk)
  case Nil
  then show ?case by simp
next
  case (Cons nextChunk chunks)
  then show ?case
    by (fastforce split: if_splits)
qed

function merge_list :: "int \<Rightarrow> DocumentChunk list \<Rightarrow> DocumentChunk list" where
  "merge_list minSize [] = []"
| "merge_list minSize (chunk # chunks) =
     (case absorb_run minSize chunk chunks of
        (currentChunk, rest) \<Rightarrow> currentChunk # merge_list minSize rest)"
  by pat_completeness auto
termination
  apply (relation "measure (\<lambda>(minSize, chunks). length chunks)")
   apply simp
  apply (auto dest!: absorb_run_length [OF sym])
  done

section \<open>Properties\<close>

subsection \<open>Evaluating string literals\<close>

lemma js_Nil: "js [] = []"
  by (simp add: js_def)

lemma js_Cons: "js (c # s) = of_nat (of_char c) # js s"
  by (simp add: js_def)

lemma js_append: "js (s @ t) = js s @ js t"
  by (simp add: js_def)

lemma length_js: "length (js s) = length s"
  by (simp add: js_def)

subsection \<open>Merging the three chunks of the test\<close>

text \<open>
  Claim C1 says that merging the three chunks \<^verbatim>\<open>"Short"\<close>, \<^verbatim>\<open>"Also short"\<close> and a text
  of at least 20 characters, all of one file, with \<^verbatim>\<open>minSize = 20\<close> gives a shorter list
  whose first chunk has content exactly \<^verbatim>\<open>"Short Also short"\<close>. The test
  \<^verbatim>\<open>should merge small chunks\<close> of the repository uses these chunks, and its third
  chunk says of itself that it should not be merged with the others because it meets the
  minimum size. The code does merge it: after the first merge the content
  \<^verbatim>\<open>"Short Also short"\<close> has 16 characters, still below 20, and the inner loop tests only
  the length of \<^verbatim>\<open>currentChunk\<close>, never that of the next chunk. On the chunks of the
  test, for every filename, the result is the single chunk below, whose content is not
  \<^verbatim>\<open>"Short Also short"\<close> but that text followed by the whole third chunk.
\<close>

theorem merge_test_fixture:
  "mergeSmallChunks
     [\<lparr>chunk_id = js ''test-1'', content = js ''Short'',
       metadata = \<lparr>filename = fname, page = None, chunkIndex = 0, totalChunks = 3\<rparr>\<rparr>,
      \<lparr>chunk_id = js ''test-2'', content = js ''Also short'',
       metadata = \<lparr>filename = fname, page = None, chunkIndex = 1, totalChunks = 3\<rparr>\<rparr>,
      \<lparr>chunk_id = js ''test-3'',
       content = js ''This is a much longer chunk that should not be merged with others because it meets the minimum size requirement.'',
       metadata = \<lparr>filename = fname, page = None, chunkIndex = 2, totalChunks = 3\<rparr>\<rparr>] 20
   = [\<lparr>chunk_id = js ''test-1'',
       content = js ''Short Also short This is a much longer chunk that should not be merged with others because it meets the minimum size requirement.'',
       metadata = \<lparr>filename = fname, page = None, chunkIndex = 0, totalChunks = 1\<rparr>\<rparr>]"
  by (simp add: mergeSmallChunks_def merge_outer.simps merge_inner.simps absorb_def js_def
      space_def)

subsection \<open>Trimming\<close>

lemma trim_Nil: "trim [] = []"
  by (simp add: trim_def)

lemma length_trim_le: "length (trim s) \<le> length s"
proof -
  have "length (trim s) \<le> length (dropWhile is_ws s)"
    unfolding trim_def using length_dropWhile_le [of is_ws "rev (dropWhile is_ws s)"] by simp
  also have "\<dots> \<le> length s"
    by (rule length_dropWhile_le)
  finally show ?thesis .
qed

lemma trim_eq_Nil_iff: "trim s = [] \<longleftrightarrow> (\<forall>c \<in> set s. is_ws c)"
proof
  assume "trim s = []"
  then have "dropWhile is_ws (rev (dropWhile is_ws s)) = []"
    by (simp add: trim_def)
  then have a: "\<forall>c \<in> set (dropWhile is_ws s). is_ws c"
    by (simp add: dropWhile_eq_Nil_conv)
  have "dropWhile is_ws s = []"
  proof (rule ccontr)
    assume ne: "dropWhile is_ws s \<noteq> []"
    then have "\<not> is_ws (hd (dropWhile is_ws s))"
      by (rule hd_dropWhile)
    moreover from ne have "hd (dropWhile is_ws s) \<in> set (dropWhile is_ws s)"
      by simp
    ultimately show False using a by blast
  qed
  then show "\<forall>c \<in> set s. is_ws c"
    by (simp add: dropWhile_eq_Nil_conv)
next
  assume "\<forall>c \<in> set s. is_ws c"
  then have "dropWhile is_ws s = []"
    by simp
  then show "trim s = []"
    by (metis trim_def dropWhile.simps(1) rev.simps(1))
qed

lemma not_ws_dot: "\<not> is_ws dot"
  by (simp add: is_ws_def dot_def)

lemma trim_snoc: "\<not> is_ws d \<Longrightarrow> trim (s @ [d]) = dropWhile is_ws s @ [d]"
proof -
  assume d: "\<not> is_ws d"
  have "dropWhile is_ws (s @ [d]) = dropWhile is_ws s @ [d]"
    using d by (induction s) auto
  then show ?thesis
    using d by (simp add: trim_def)
qed

subsection \<open>The shape of a result of chunkText\<close>

lemma chunkText_cases:
  obtains (none) "chunkText text fname options = []"
  | (some) chunks where
      "chunkText text fname options = map (set_totalChunks (int (length chunks))) chunks"
proof (cases "text = [] \<or> length (trim text) = 0 \<or> length (sentences_of text) = 0")
  case True
  then have "chunkText text fname options = []"
    by (auto simp: chunkText_def)
  then show ?thesis by (rule none)
next
  case False
  obtain chunks cur idx where
    loop: "chunk_loop fname (resolve_options options) ([], [], 0) (sentences_of text)
           = (chunks, cur, idx)"
    by (cases "chunk_loop fname (resolve_options options) ([], [], 0) (sentences_of text)")
  define chunks' where
    "chunks' = (if length (trim cur) > 0 then chunks @ [mk_chunk fname cur idx] else chunks)"
  have "chunkText text fname options = map (set_totalChunks (int (length chunks'))) chunks'"
    using False loop by (simp add: chunkText_def chunks'_def)
  then show ?thesis by (rule some)
qed

text \<open>
  A run with two chunks: with \<^verbatim>\<open>chunkSize = 1\<close> and \<^verbatim>\<open>minChunkSize = 1\<close> the second
  sentence flushes the first. The overlap seed of \<^verbatim>\<open>"Aa."\<close> for size 2 is empty:
  the last two characters are \<^verbatim>\<open>"a."\<close> and nothing follows their \<^verbatim>\<open>"."\<close>.
\<close>

lemma chunkText_two_sentences:
  "chunkText (js ''Aa. Bb!'') f
     \<lparr>opt_chunkSize = Some 1, opt_chunkOverlap = Some 2, opt_minChunkSize = Some 1\<rparr> =
   [\<lparr>chunk_id = f @ js ''-chunk-0'', content = js ''Aa.'',
     metadata = \<lparr>filename = f, page = None, chunkIndex = 0, totalChunks = 2\<rparr>\<rparr>,
    \<lparr>chunk_id = f @ js ''-chunk-1'', content = js ''Bb.'',
     metadata = \<lparr>filename = f, page = None, chunkIndex = 1, totalChunks = 2\<rparr>\<rparr>]"
  by (simp add: chunkText_def js_def sentences_of_def trim_def is_ws_def is_term_def
      resolve_options_def chunk_step_def mk_chunk_def dot_def set_totalChunks_def
      show_nat.simps digit_def getOverlapText_def js_slice_def lastIndexOf_def space_def)

subsection \<open>The total count of chunks\<close>

text \<open>
  Claim C3. For every text, filename and options, every chunk of the list returned by
  \<^verbatim>\<open>chunkText\<close> carries in \<^verbatim>\<open>metadata.totalChunks\<close> the length of that list.
\<close>

theorem chunkText_totalChunks:
  "\<forall>c \<in> set (chunkText text fname options).
     totalChunks (metadata c) = int (length (chunkText text fname options))"
proof (cases "text" fname options rule: chunkText_cases)
  case none
  then show ?thesis by simp
next
  case (some chunks)
  then show ?thesis by (simp add: set_totalChunks_def)
qed

theorem chunkText_totalChunks_witness:
  "length (chunkText (js ''Aa. Bb!'') (js ''f'')
     \<lparr>opt_chunkSize = Some 1, opt_chunkOverlap = Some 2, opt_minChunkSize = Some 1\<rparr>) = 2
   \<and> totalChunks (metadata (chunkText (js ''Aa. Bb!'') (js ''f'')
     \<lparr>opt_chunkSize = Some 1, opt_chunkOverlap = Some 2, opt_minChunkSize = Some 1\<rparr> ! 1)) = 2"
proof -
  let ?r = "chunkText (js ''Aa. Bb!'') (js ''f'')
     \<lparr>opt_chunkSize = Some 1, opt_chunkOverlap = Some 2, opt_minChunkSize = Some 1\<rparr>"
  have len: "length ?r = 2"
    by (simp add: chunkText_two_sentences)
  then have "?r ! 1 \<in> set ?r"
    by simp
  with chunkText_totalChunks [of "js ''Aa. Bb!''" "js ''f''"
      "\<lparr>opt_chunkSize = Some 1, opt_chunkOverlap = Some 2, opt_minChunkSize = Some 1\<rparr>"]
  have "totalChunks (metadata (?r ! 1)) = int (length ?r)"
    by blast
  with len show ?thesis by simp
qed

subsection \<open>Texts without sentences\<close>

text \<open>
  Claim C8. For every filename and options, \<^verbatim>\<open>chunkText\<close> returns the empty list when
  the text is empty, when it consists only of whitespace, and when every piece of the split
  on runs of \<^verbatim>\<open>.\<close>, \<^verbatim>\<open>!\<close>, \<^verbatim>\<open>?\<close> is empty after trimming; in particular for \<^verbatim>\<open>""\<close>
  and \<^verbatim>\<open>"   "\<close>. The function has no failing branch: each of these inputs yields a
  value.
\<close>

theorem chunkText_empty:
  "(text = [] \<or> (\<forall>c \<in> set text. is_ws c) \<or> (\<forall>s \<in> set (js_split text). trim s = [])
      \<longrightarrow> chunkText text fname options = [])
   \<and> chunkText (js '''') fname options = []
   \<and> chunkText (js ''   '') fname options = []"
proof (intro conjI impI)
  assume "text = [] \<or> (\<forall>c \<in> set text. is_ws c) \<or> (\<forall>s \<in> set (js_split text). trim s = [])"
  then consider "text = []" | "trim text = []" | "sentences_of text = []"
    by (auto simp: trim_eq_Nil_iff sentences_of_def filter_empty_conv)
  then show "chunkText text fname options = []"
    by cases (simp_all add: chunkText_def)
next
  show "chunkText (js '''') fname options = []"
    by (simp add: chunkText_def js_def)
next
  show "chunkText (js ''   '') fname options = []"
    by (simp add: chunkText_def js_def trim_def is_ws_def)
qed

theorem chunkText_empty_witness:
  "chunkText (js ''...'') (js ''f'') no_options = []"
proof -
  have "\<forall>s \<in> set (js_split (js ''...'')). trim s = []"
    by (simp add: js_def is_term_def trim_def)
  then show ?thesis
    using chunkText_empty [of "js ''...''" "js ''f''" no_options] by blast
qed

subsection \<open>A text of one sentence\<close>

lemma js_split_no_term: "\<forall>c \<in> set s. \<not> is_term c \<Longrightarrow> js_split s = [s]"
  by (induction s) auto

lemma js_split_snoc_term:
  "\<forall>c \<in> set s. \<not> is_term c \<Longrightarrow> is_term t \<Longrightarrow> js_split (s @ [t]) = [s, []]"
  by (induction s) auto

lemma trim_sentenceText_nonempty: "trim (trim s @ [dot]) \<noteq> []"
  by (simp add: trim_snoc not_ws_dot)

lemma chunkText_one_sentence:
  assumes "sentences_of text = [s]" and "trim text \<noteq> []"
  shows "chunkText text fname no_options =
     [\<lparr>chunk_id = fname @ js ''-chunk-0'', content = trim (trim s @ [dot]),
       metadata = \<lparr>filename = fname, page = None, chunkIndex = 0, totalChunks = 1\<rparr>\<rparr>]"
proof -
  from assms(2) have ne: "text \<noteq> []"
    by (auto simp: trim_Nil)
  have step: "chunk_step fname (resolve_options no_options) ([], [], 0) s
      = ([], trim s @ [dot], 0)"
    by (simp add: chunk_step_def resolve_options_def no_options_def DEFAULT_CHUNKING_OPTIONS_def)
  have zero: "show_nat 0 = js ''0''"
    by (simp add: show_nat.simps digit_def js_def)
  show ?thesis
    using assms ne trim_sentenceText_nonempty [of s]
    by (simp add: chunkText_def step mk_chunk_def set_totalChunks_def zero js_append [symmetric])
qed

lemma single_sentence_split:
  "sentences_of (js ''This is a single sentence.'') = [js ''This is a single sentence'']"
proof -
  have "js ''This is a single sentence.'' = js ''This is a single sentence'' @ [dot]"
    by (simp add: js_def dot_def)
  moreover have "\<forall>c \<in> set (js ''This is a single sentence''). \<not> is_term c"
    by (simp add: js_def is_term_def)
  moreover have "is_term dot"
    by (simp add: is_term_def dot_def)
  ultimately have "js_split (js ''This is a single sentence.'')
      = [js ''This is a single sentence'', []]"
    by (simp add: js_split_snoc_term)
  moreover have "trim (js ''This is a single sentence'') \<noteq> []"
    by (simp add: js_def trim_def is_ws_def)
  ultimately show ?thesis
    by (simp add: sentences_of_def trim_Nil)
qed

lemma single_sentence_trim:
  "trim (js ''This is a single sentence'') = js ''This is a single sentence''"
  "trim (js ''This is a single sentence.'') = js ''This is a single sentence.''"
  by (simp_all add: js_def trim_def is_ws_def)

text \<open>
  Claim C7. For every filename, \<^verbatim>\<open>chunkText("This is a single sentence.", filename)\<close>
  with the default options returns exactly one chunk, whose trimmed content is the
  sentence itself. More generally a text that is not blank and contains none of \<^verbatim>\<open>.\<close>,
  \<^verbatim>\<open>!\<close>, \<^verbatim>\<open>?\<close> gives exactly one chunk. The source has no \<^verbatim>\<open>throw\<close> and calls only
  string and array operations that are defined on every string, so \<^verbatim>\<open>chunkText\<close> is a
  function that returns a list for every input: there is no error value to return.
\<close>

theorem chunkText_single_sentence:
  "map (\<lambda>c. trim (content c)) (chunkText (js ''This is a single sentence.'') fname no_options)
     = [js ''This is a single sentence.'']
   \<and> ((\<forall>c \<in> set text. \<not> is_term c) \<and> \<not> (\<forall>c \<in> set text. is_ws c)
        \<longrightarrow> length (chunkText text fname no_options) = 1)"
proof (intro conjI impI)
  have "js ''This is a single sentence'' @ [dot] = js ''This is a single sentence.''"
    by (simp add: js_def dot_def)
  moreover have ne: "trim (js ''This is a single sentence.'') \<noteq> []"
    unfolding single_sentence_trim by (simp add: js_def)
  ultimately show "map (\<lambda>c. trim (content c))
      (chunkText (js ''This is a single sentence.'') fname no_options)
      = [js ''This is a single sentence.'']"
    using chunkText_one_sentence [OF single_sentence_split ne, of fname]
    by (simp add: single_sentence_trim)
next
  assume h: "(\<forall>c \<in> set text. \<not> is_term c) \<and> \<not> (\<forall>c \<in> set text. is_ws c)"
  then have t: "trim text \<noteq> []"
    by (simp add: trim_eq_Nil_iff)
  with h have "sentences_of text = [text]"
    by (simp add: sentences_of_def js_split_no_term)
  from chunkText_one_sentence [OF this t, of fname]
  show "length (chunkText text fname no_options) = 1"
    by simp
qed

theorem chunkText_single_sentence_witness:
  "length (chunkText (js ''no terminal punctuation'') (js ''f'') no_options) = 1"
proof -
  have "(\<forall>c \<in> set (js ''no terminal punctuation''). \<not> is_term c)
      \<and> \<not> (\<forall>c \<in> set (js ''no terminal punctuation''). is_ws c)"
    by (simp add: js_def is_term_def is_ws_def)
  with chunkText_single_sentence [of "js ''f''" "js ''no terminal punctuation''"]
  show ?thesis by blast
qed

subsection \<open>The overlap seed\<close>

lemma lastIndexOf_absent: "c \<notin> set s \<Longrightarrow> lastIndexOf s c = - 1"
  by (simp add: lastIndexOf_def)

lemma lastIndexOf_at:
  assumes "p < length s" and "s ! p = c" and "\<forall>q \<in> {p + 1..<length s}. s ! q \<noteq> c"
  shows "lastIndexOf s c = int p"
proof -
  have split: "s = take p s @ c # drop (Suc p) s"
    using assms(1,2) id_take_nth_drop [of p s] by simp
  have tail: "\<forall>x \<in> set (drop (Suc p) s). x \<noteq> c"
  proof
    fix x assume "x \<in> set (drop (Suc p) s)"
    then obtain k where k: "k < length (drop (Suc p) s)" "x = drop (Suc p) s ! k"
      by (auto simp: in_set_conv_nth)
    then have "x = s ! (Suc p + k)" and "Suc p + k \<in> {p + 1..<length s}"
      by auto
    with assms(3) show "x \<noteq> c" by blast
  qed
  have "rev s = rev (drop (Suc p) s) @ c # rev (take p s)"
    by (subst split) simp
  then have "takeWhile (\<lambda>x. x \<noteq> c) (rev s) = rev (drop (Suc p) s)"
    using tail by (simp add: takeWhile_tail)
  moreover have "c \<in> set s"
    using assms(1,2) by (auto simp: in_set_conv_nth)
  ultimately show ?thesis
    using assms(1) by (simp add: lastIndexOf_def)
qed

lemma last_dot_at_drop:
  "last_dot_at s p \<longleftrightarrow> p < length s \<and> s ! p = dot \<and> dot \<notin> set (drop (p + 1) s)"
proof -
  have "(\<forall>q \<in> {p + 1..<length s}. s ! q \<noteq> dot) \<longleftrightarrow> dot \<notin> set (drop (p + 1) s)"
  proof
    assume a: "\<forall>q \<in> {p + 1..<length s}. s ! q \<noteq> dot"
    show "dot \<notin> set (drop (p + 1) s)"
    proof
      assume "dot \<in> set (drop (p + 1) s)"
      then obtain k where "k < length (drop (p + 1) s)" "drop (p + 1) s ! k = dot"
        by (auto simp: in_set_conv_nth)
      then have "s ! (p + 1 + k) = dot" and "p + 1 + k \<in> {p + 1..<length s}"
        by auto
      with a show False by blast
    qed
  next
    assume a: "dot \<notin> set (drop (p + 1) s)"
    show "\<forall>q \<in> {p + 1..<length s}. s ! q \<noteq> dot"
    proof
      fix q assume q: "q \<in> {p + 1..<length s}"
      then have "drop (p + 1) s ! (q - (p + 1)) = s ! q" and "q - (p + 1) < length (drop (p + 1) s)"
        by auto
      then have "s ! q \<in> set (drop (p + 1) s)"
        by (metis nth_mem)
      with a show "s ! q \<noteq> dot" by auto
    qed
  qed
  then show ?thesis
    by (simp add: last_dot_at_def)
qed

lemma js_slice_last: "1 \<le> n \<Longrightarrow> n < int (length s) \<Longrightarrow> js_slice s (- n) = lastN (nat n) s"
  by (simp add: js_slice_def lastN_def nat_diff_distrib)

lemma js_slice_drop: "js_slice s (int k) = drop k s"
  by (simp add: js_slice_def min_def)

lemma chunk_step_accumulator:
  assumes "trim s \<noteq> []"
    and "chunk_step fname opts (chunks, cur, idx) s = (chunks', cur', idx')"
  shows "accumulator_shape cur'"
proof -
  from assms(1) have "1 \<le> length (trim s)"
    by (cases "trim s") simp_all
  with assms(2) show ?thesis
    by (auto simp: chunk_step_def Let_def accumulator_shape_def split: if_splits)
qed

lemma chunk_loop_accumulator:
  assumes "\<forall>s \<in> set sentences. trim s \<noteq> []" and "accumulator_shape cur"
    and "chunk_loop fname opts (chunks, cur, idx) sentences = (chunks', cur', idx')"
  shows "accumulator_shape cur'"
  using assms
proof (induction sentences arbitrary: chunks cur idx)
  case Nil
  then show ?case by simp
next
  case (Cons s sentences)
  obtain chunks1 cur1 idx1 where
    step: "chunk_step fname opts (chunks, cur, idx) s = (chunks1, cur1, idx1)"
    by (cases "chunk_step fname opts (chunks, cur, idx) s")
  from Cons.prems(1) have "trim s \<noteq> []"
    by simp
  then have "accumulator_shape cur1"
    using step by (rule chunk_step_accumulator)
  moreover from Cons.prems(1) have "\<forall>s \<in> set sentences. trim s \<noteq> []"
    by simp
  moreover from Cons.prems(3) step
  have "chunk_loop fname opts (chunks1, cur1, idx1) sentences = (chunks', cur', idx')"
    by simp
  ultimately show ?case
    using Cons.IH by blast
qed

lemma sentences_of_not_blank: "\<forall>s \<in> set (sentences_of text). trim s \<noteq> []"
  by (simp add: sentences_of_def)

lemma lastN_zero: "lastN 0 s = []"
  by (simp add: lastN_def)

lemma lastIndexOf_last:
  assumes "s \<noteq> []" and "last s = c"
  shows "lastIndexOf s c = int (length s) - 1"
proof -
  from assms have "length s - 1 < length s" and "s ! (length s - 1) = c"
    by (simp_all add: last_conv_nth)
  then have "lastIndexOf s c = int (length s - 1)"
    by (rule lastIndexOf_at) simp
  with assms(1) show ?thesis
    by (cases s) simp_all
qed

lemma getOverlapText_zero_accumulator:
  assumes "2 \<le> length text" and "last text = dot"
  shows "getOverlapText text 0 = []"
proof -
  from assms have ne: "text \<noteq> []"
    by auto
  have l: "lastIndexOf text dot = int (length text) - 1"
    using ne assms(2) by (rule lastIndexOf_last)
  have "js_slice text (- 0) = text"
    by (simp add: js_slice_def)
  moreover have "js_slice text (int (length text) - 1 + 1) = []"
    by (simp add: js_slice_def)
  ultimately show ?thesis
    using assms(1) l by (simp add: getOverlapText_def trim_Nil)
qed

text \<open>
  With \<^verbatim>\<open>N = 0\<close> the shape of the text matters, because \<^verbatim>\<open>text.slice(-0)\<close> is the
  whole text and not its last 0 characters: a text that does not end in \<^verbatim>\<open>.\<close> gives what
  follows its last \<^verbatim>\<open>.\<close>. No call of the module passes such a text.
\<close>

lemma getOverlapText_slice_minus_zero: "getOverlapText (js ''a.b'') 0 = js ''b''"
  by (simp add: getOverlapText_def js_def js_slice_def lastIndexOf_def dot_def trim_def
      is_ws_def)

text \<open>
  Claim C2. Let \<^verbatim>\<open>N\<close> be an overlap size and \<^verbatim>\<open>text\<close> a text that \<^verbatim>\<open>getOverlapText\<close> can
  be given: any text when \<^verbatim>\<open>N\<close> is positive, as the specification assumes of sizes, and
  an accumulator of \<^verbatim>\<open>chunkText\<close> when \<^verbatim>\<open>N = 0\<close>. If the text has at most \<^verbatim>\<open>N\<close>
  characters, \<^verbatim>\<open>getOverlapText\<close> returns it unchanged. Otherwise let \<^verbatim>\<open>s\<close> be its last
  \<^verbatim>\<open>N\<close> characters: when the last \<^verbatim>\<open>.\<close> of \<^verbatim>\<open>s\<close> is at a position \<^verbatim>\<open>p > 0\<close> the result
  is what follows position \<^verbatim>\<open>p\<close> in \<^verbatim>\<open>s\<close>, trimmed; when \<^verbatim>\<open>s\<close> has no \<^verbatim>\<open>.\<close> or its
  last \<^verbatim>\<open>.\<close> is at position 0 the result is \<^verbatim>\<open>s\<close>.
\<close>

theorem getOverlapText_spec:
  assumes "1 \<le> N \<or> (N = 0 \<and> accumulator_shape text)"
  shows "(int (length text) \<le> N \<longrightarrow> getOverlapText text N = text)
    \<and> (N < int (length text) \<longrightarrow>
         (last_dot_at (lastN (nat N) text) p \<and> 0 < p \<longrightarrow>
            getOverlapText text N = trim (drop (p + 1) (lastN (nat N) text)))
       \<and> (dot \<notin> set (lastN (nat N) text) \<or> last_dot_at (lastN (nat N) text) 0 \<longrightarrow>
            getOverlapText text N = lastN (nat N) text))"
  using assms
proof
  assume pos: "1 \<le> N"
  show ?thesis
  proof (intro conjI impI)
    assume "int (length text) \<le> N"
    then show "getOverlapText text N = text"
      by (simp add: getOverlapText_def)
  next
    assume long: "N < int (length text)"
      and "last_dot_at (lastN (nat N) text) p \<and> 0 < p"
    then have "lastIndexOf (lastN (nat N) text) dot = int p" and "0 < p"
      by (simp_all add: last_dot_at_def lastIndexOf_at)
    then show "getOverlapText text N = trim (drop (p + 1) (lastN (nat N) text))"
      using long pos js_slice_drop [of "lastN (nat N) text" "p + 1"]
      by (simp add: getOverlapText_def js_slice_last add.commute)
  next
    assume long: "N < int (length text)"
      and c: "dot \<notin> set (lastN (nat N) text) \<or> last_dot_at (lastN (nat N) text) 0"
    from c have "lastIndexOf (lastN (nat N) text) dot \<le> 0"
    proof
      assume "dot \<notin> set (lastN (nat N) text)"
      then show ?thesis by (simp add: lastIndexOf_absent)
    next
      assume "last_dot_at (lastN (nat N) text) 0"
      then have "lastIndexOf (lastN (nat N) text) dot = int 0"
        unfolding last_dot_at_def by (intro lastIndexOf_at) auto
      then show ?thesis by simp
    qed
    then show "getOverlapText text N = lastN (nat N) text"
      using long pos by (simp add: getOverlapText_def js_slice_last)
  qed
next
  assume z: "N = 0 \<and> accumulator_shape text"
  show ?thesis
  proof (cases "text = []")
    case True
    with z show ?thesis
      by (simp add: getOverlapText_def)
  next
    case False
    with z have "2 \<le> length text" and "last text = dot"
      by (simp_all add: accumulator_shape_def)
    then have "getOverlapText text 0 = []"
      by (rule getOverlapText_zero_accumulator)
    with z False show ?thesis
      by (simp add: lastN_zero last_dot_at_def)
  qed
qed

theorem getOverlapText_spec_witness:
  "getOverlapText (js ''ab'') 5 = js ''ab''
   \<and> getOverlapText (js ''a.b c.def'') 5 = js ''def''
   \<and> getOverlapText (js ''a.b cdefg'') 5 = js ''cdefg''
   \<and> getOverlapText (js ''Aa.'') 0 = js ''''"
proof (intro conjI)
  show "getOverlapText (js ''ab'') 5 = js ''ab''"
    using getOverlapText_spec [of 5 "js ''ab''"] by (simp add: length_js)
next
  have s: "lastN (nat 5) (js ''a.b c.def'') = js ''c.def''"
    by (simp add: lastN_def js_def)
  have "last_dot_at (js ''c.def'') 1 \<and> 0 < (1::nat)"
    by (simp add: last_dot_at_drop js_def dot_def)
  moreover have "trim (drop (1 + 1) (js ''c.def'')) = js ''def''"
    by (simp add: js_def trim_def is_ws_def)
  ultimately show "getOverlapText (js ''a.b c.def'') 5 = js ''def''"
    using getOverlapText_spec [of 5 "js ''a.b c.def''" 1] s
    by (simp add: length_js)
next
  have s: "lastN (nat 5) (js ''a.b cdefg'') = js ''cdefg''"
    by (simp add: lastN_def js_def)
  have "dot \<notin> set (js ''cdefg'')"
    by (simp add: js_def dot_def)
  then show "getOverlapText (js ''a.b cdefg'') 5 = js ''cdefg''"
    using getOverlapText_spec [of 5 "js ''a.b cdefg''"] s
    by (simp add: length_js)
next
  have a: "accumulator_shape (js ''Aa.'')"
    by (simp add: accumulator_shape_def js_def dot_def)
  from getOverlapText_spec [of 0 "js ''Aa.''"] a
  have "dot \<notin> set (lastN (nat 0) (js ''Aa.'')) \<longrightarrow> getOverlapText (js ''Aa.'') 0 = lastN (nat 0) (js ''Aa.'')"
    by (simp add: length_js)
  then show "getOverlapText (js ''Aa.'') 0 = js ''''"
    by (simp add: lastN_zero js_Nil)
qed

subsection \<open>Chunking page by page\<close>

lemma upt_0_Suc: "[0..<Suc n] = 0 # map Suc [0..<n]"
  by (metis map_Suc_upt upt_conv_Cons zero_less_Suc)

lemma with_page_info_relabel: "with_page_info fname pageIndex chunk idx = relabel fname (pageIndex + 1) idx chunk"
  by (simp add: with_page_info_def relabel_def)

lemma map_page_info_nth:
  "map_page_info fname pageIndex idx cs
     = map (\<lambda>k. relabel fname (pageIndex + 1) (idx + k) (cs ! k)) [0..<length cs]"
proof (induction cs arbitrary: idx)
  case Nil
  show ?case by simp
next
  case (Cons c cs)
  have "[0..<length (c # cs)] = 0 # map Suc [0..<length cs]"
    using upt_0_Suc [of "length cs"] by simp
  then show ?case
    by (simp add: Cons.IH with_page_info_relabel comp_def del: upt_Suc)
qed

lemma pages_loop_concat:
  "pages_loop fname options pageIndex allChunks pages
     = allChunks @ concat (map (\<lambda>j. map_page_info fname (pageIndex + j) 0
                                       (chunkText (pages ! j) fname options))
                               [0..<length pages])"
proof (induction pages arbitrary: pageIndex allChunks)
  case Nil
  show ?case by simp
next
  case (Cons pageText rest)
  have "[0..<length (pageText # rest)] = 0 # map Suc [0..<length rest]"
    using upt_0_Suc [of "length rest"] by simp
  then show ?case
    by (simp add: Cons.IH comp_def del: upt_Suc)
qed

lemma chunkByPages_refines: "chunkByPages pages fname options = chunkByPages_spec pages fname options"
proof -
  have "[1..<length pages + 1] = map Suc [0..<length pages]"
    by (simp add: map_Suc_upt del: upt_Suc)
  then show ?thesis
    by (simp add: chunkByPages_def chunkByPages_spec_def pages_loop_concat page_chunks_def
        map_page_info_nth comp_def Let_def del: upt_Suc)
qed

lemma page_text_sentences:
  "sentences_of (js ''Page one text.'') = [js ''Page one text'']"
  "sentences_of (js ''Page two text.'') = [js ''Page two text'']"
  by (simp_all add: sentences_of_def js_def is_term_def trim_def is_ws_def)

lemma page_text_chunk:
  "chunkText (js ''Page one text.'') fname no_options =
     [\<lparr>chunk_id = fname @ js ''-chunk-0'', content = js ''Page one text.'',
       metadata = \<lparr>filename = fname, page = None, chunkIndex = 0, totalChunks = 1\<rparr>\<rparr>]"
  "chunkText (js ''Page two text.'') fname no_options =
     [\<lparr>chunk_id = fname @ js ''-chunk-0'', content = js ''Page two text.'',
       metadata = \<lparr>filename = fname, page = None, chunkIndex = 0, totalChunks = 1\<rparr>\<rparr>]"
proof -
  have t: "trim (js ''Page one text.'') \<noteq> []" "trim (js ''Page two text.'') \<noteq> []"
    by (simp_all add: js_def trim_def is_ws_def)
  have c: "trim (trim (js ''Page one text'') @ [dot]) = js ''Page one text.''"
    "trim (trim (js ''Page two text'') @ [dot]) = js ''Page two text.''"
    by (simp_all add: js_def trim_def is_ws_def dot_def)
  show "chunkText (js ''Page one text.'') fname no_options =
     [\<lparr>chunk_id = fname @ js ''-chunk-0'', content = js ''Page one text.'',
       metadata = \<lparr>filename = fname, page = None, chunkIndex = 0, totalChunks = 1\<rparr>\<rparr>]"
    using chunkText_one_sentence [OF page_text_sentences(1) t(1), of fname] c(1) by simp
  show "chunkText (js ''Page two text.'') fname no_options =
     [\<lparr>chunk_id = fname @ js ''-chunk-0'', content = js ''Page two text.'',
       metadata = \<lparr>filename = fname, page = None, chunkIndex = 0, totalChunks = 1\<rparr>\<rparr>]"
    using chunkText_one_sentence [OF page_text_sentences(2) t(2), of fname] c(2) by simp
qed

lemma show_nat_small:
  "show_nat 0 = js ''0''" "show_nat (Suc 0) = js ''1''" "show_nat 1 = js ''1''"
  "show_nat 2 = js ''2''"
  by (simp_all add: show_nat.simps digit_def js_def)

text \<open>
  Claim C6. For every list of pages, filename and options, \<^verbatim>\<open>chunkByPages\<close> returns the
  concatenation, in page order, of the relabelled chunks of each page as the specification
  describes them (\<^const>\<open>chunkByPages_spec\<close>). In particular the two pages
  \<^verbatim>\<open>"Page one text."\<close> and \<^verbatim>\<open>"Page two text."\<close> of \<^verbatim>\<open>"doc.pdf"\<close> give one chunk each,
  with \<^verbatim>\<open>metadata.page\<close> 1 and 2 and ids \<^verbatim>\<open>doc.pdf-page1-chunk-0\<close> and
  \<^verbatim>\<open>doc.pdf-page2-chunk-0\<close>.
\<close>

theorem chunkByPages_concat_of_pages:
  "chunkByPages pages fname options = chunkByPages_spec pages fname options
   \<and> chunkByPages [js ''Page one text.'', js ''Page two text.''] (js ''doc.pdf'') no_options =
     [\<lparr>chunk_id = js ''doc.pdf-page1-chunk-0'', content = js ''Page one text.'',
       metadata = \<lparr>filename = js ''doc.pdf'', page = Some 1, chunkIndex = 0, totalChunks = 1\<rparr>\<rparr>,
      \<lparr>chunk_id = js ''doc.pdf-page2-chunk-0'', content = js ''Page two text.'',
       metadata = \<lparr>filename = js ''doc.pdf'', page = Some 2, chunkIndex = 0, totalChunks = 1\<rparr>\<rparr>]"
proof
  show "chunkByPages pages fname options = chunkByPages_spec pages fname options"
    by (rule chunkByPages_refines)
next
  have two: "Suc (Suc 0) = 2"
    by simp
  show "chunkByPages [js ''Page one text.'', js ''Page two text.''] (js ''doc.pdf'') no_options =
     [\<lparr>chunk_id = js ''doc.pdf-page1-chunk-0'', content = js ''Page one text.'',
       metadata = \<lparr>filename = js ''doc.pdf'', page = Some 1, chunkIndex = 0, totalChunks = 1\<rparr>\<rparr>,
      \<lparr>chunk_id = js ''doc.pdf-page2-chunk-0'', content = js ''Page two text.'',
       metadata = \<lparr>filename = js ''doc.pdf'', page = Some 2, chunkIndex = 0, totalChunks = 1\<rparr>\<rparr>]"
    by (simp add: chunkByPages_def page_text_chunk with_page_info_def show_nat_small two
        js_append [symmetric])
qed

subsection \<open>Chunk ids\<close>

lemma unat_digit: "d < 10 \<Longrightarrow> unat (digit d) = 48 + d"
proof -
  assume d: "d < 10"
  have "unat (digit d) = (48 + d) mod 2 ^ LENGTH(16)"
    unfolding digit_def by (rule unat_of_nat)
  with d show ?thesis by simp
qed

lemma digit_inj: "a < 10 \<Longrightarrow> b < 10 \<Longrightarrow> digit a = digit b \<Longrightarrow> a = b"
proof -
  assume a: "a < 10" and b: "b < 10" and e: "digit a = digit b"
  from e have "unat (digit a) = unat (digit b)"
    by (rule arg_cong)
  then have "48 + a = 48 + b"
    by (simp only: unat_digit [OF a] unat_digit [OF b])
  then show "a = b" by simp
qed

lemma digit_not_dash: "d < 10 \<Longrightarrow> digit d \<noteq> 45"
proof
  assume d: "d < 10" and e: "digit d = 45"
  from e have "unat (digit d) = unat (45 :: jschar)"
    by (rule arg_cong)
  then have "48 + d = unat (45 :: jschar)"
    by (simp only: unat_digit [OF d])
  then show False by simp
qed

lemma show_nat_not_Nil: "show_nat n \<noteq> []"
  by (subst show_nat.simps) simp

lemma show_nat_no_dash: "\<forall>c \<in> set (show_nat n). c \<noteq> 45"
proof (induction n rule: show_nat.induct)
  case (1 n)
  show ?case
  proof (cases "n < 10")
    case True
    then show ?thesis
      by (subst show_nat.simps) (simp add: digit_not_dash)
  next
    case False
    with "1.IH" show ?thesis
      by (subst show_nat.simps) (simp add: digit_not_dash)
  qed
qed

lemma show_nat_inj: "show_nat n = show_nat m \<Longrightarrow> n = m"
proof (induction n arbitrary: m rule: show_nat.induct)
  case (1 n)
  show ?case
  proof (cases "n < 10")
    case n: True
    show ?thesis
    proof (cases "m < 10")
      case True
      with n "1.prems" show ?thesis
        by (simp add: show_nat.simps [of n] show_nat.simps [of m] digit_inj)
    next
      case False
      with n "1.prems" show_nat_not_Nil [of "m div 10"] show ?thesis
        by (simp add: show_nat.simps [of n] show_nat.simps [of m])
    qed
  next
    case n: False
    show ?thesis
    proof (cases "m < 10")
      case True
      with n "1.prems" show_nat_not_Nil [of "n div 10"] show ?thesis
        by (simp add: show_nat.simps [of n] show_nat.simps [of m])
    next
      case False
      with n "1.prems" have "show_nat (n div 10) = show_nat (m div 10)"
        and "digit (n mod 10) = digit (m mod 10)"
        by (simp_all add: show_nat.simps [of n] show_nat.simps [of m])
      then have "n div 10 = m div 10" and "n mod 10 = m mod 10"
        using "1.IH" [OF n] by (simp_all add: digit_inj)
      then show ?thesis
        by (metis div_mult_mod_eq)
    qed
  qed
qed


lemma chunk_step_ids:
  assumes "map chunk_id chunks = map (\<lambda>k. fname @ js ''-chunk-'' @ show_nat k) [0..<idx]"
    and "chunk_step fname opts (chunks, cur, idx) s = (chunks', cur', idx')"
  shows "map chunk_id chunks' = map (\<lambda>k. fname @ js ''-chunk-'' @ show_nat k) [0..<idx']"
  using assms by (auto simp: chunk_step_def mk_chunk_def Let_def split: if_splits)

lemma chunk_loop_ids:
  assumes "map chunk_id chunks = map (\<lambda>k. fname @ js ''-chunk-'' @ show_nat k) [0..<idx]"
    and "chunk_loop fname opts (chunks, cur, idx) sentences = (chunks', cur', idx')"
  shows "map chunk_id chunks' = map (\<lambda>k. fname @ js ''-chunk-'' @ show_nat k) [0..<idx']"
  using assms
proof (induction sentences arbitrary: chunks cur idx)
  case Nil
  then show ?case by simp
next
  case (Cons s sentences)
  obtain chunks1 cur1 idx1 where
    step: "chunk_step fname opts (chunks, cur, idx) s = (chunks1, cur1, idx1)"
    by (cases "chunk_step fname opts (chunks, cur, idx) s")
  from chunk_step_ids [OF Cons.prems(1) step]
  have "map chunk_id chunks1 = map (\<lambda>k. fname @ js ''-chunk-'' @ show_nat k) [0..<idx1]" .
  moreover from Cons.prems(2) step
  have "chunk_loop fname opts (chunks1, cur1, idx1) sentences = (chunks', cur', idx')"
    by simp
  ultimately show ?case
    by (rule Cons.IH)
qed

lemma chunk_id_set_totalChunks: "chunk_id (set_totalChunks n c) = chunk_id c"
  by (simp add: set_totalChunks_def)

lemma chunkText_ids:
  "\<exists>n. map chunk_id (chunkText text fname options)
     = map (\<lambda>k. fname @ js ''-chunk-'' @ show_nat k) [0..<n]"
proof (cases "text = [] \<or> length (trim text) = 0 \<or> length (sentences_of text) = 0")
  case True
  then have "chunkText text fname options = []"
    by (auto simp: chunkText_def)
  then have "map chunk_id (chunkText text fname options)
     = map (\<lambda>k. fname @ js ''-chunk-'' @ show_nat k) [0..<0]"
    by simp
  then show ?thesis ..
next
  case False
  obtain chunks cur idx where
    loop: "chunk_loop fname (resolve_options options) ([], [], 0) (sentences_of text)
           = (chunks, cur, idx)"
    by (cases "chunk_loop fname (resolve_options options) ([], [], 0) (sentences_of text)")
  have ids: "map chunk_id chunks = map (\<lambda>k. fname @ js ''-chunk-'' @ show_nat k) [0..<idx]"
    by (rule chunk_loop_ids [OF _ loop]) simp
  show ?thesis
  proof (cases "length (trim cur) > 0")
    case True
    with False loop ids have "map chunk_id (chunkText text fname options)
       = map (\<lambda>k. fname @ js ''-chunk-'' @ show_nat k) [0..<Suc idx]"
      by (simp add: chunkText_def comp_def chunk_id_set_totalChunks mk_chunk_def)
    then show ?thesis ..
  next
    case c: False
    with False loop ids have "map chunk_id (chunkText text fname options)
       = map (\<lambda>k. fname @ js ''-chunk-'' @ show_nat k) [0..<idx]"
      by (simp add: chunkText_def comp_def chunk_id_set_totalChunks)
    then show ?thesis ..
  qed
qed

lemma chunkText_ids_distinct: "distinct (map chunk_id (chunkText text fname options))"
proof -
  obtain n where "map chunk_id (chunkText text fname options)
     = map (\<lambda>k. fname @ js ''-chunk-'' @ show_nat k) [0..<n]"
    using chunkText_ids by blast
  moreover have "inj_on (\<lambda>k. fname @ js ''-chunk-'' @ show_nat k) (set [0..<n])"
    by (rule inj_onI) (simp add: show_nat_inj)
  ultimately show ?thesis
    by (simp add: distinct_map)
qed

lemma show_nat_dash_split:
  assumes "show_nat p @ 45 # r = show_nat p' @ 45 # r'"
  shows "p = p' \<and> r = r'"
proof -
  have "takeWhile (\<lambda>c. c \<noteq> 45) (show_nat p @ 45 # r) = show_nat p"
    using show_nat_no_dash [of p] by (simp add: takeWhile_tail)
  moreover have "takeWhile (\<lambda>c. c \<noteq> 45) (show_nat p' @ 45 # r') = show_nat p'"
    using show_nat_no_dash [of p'] by (simp add: takeWhile_tail)
  ultimately have "show_nat p = show_nat p'"
    using assms by simp
  with assms show ?thesis
    by (simp add: show_nat_inj)
qed

lemma page_id_inj:
  assumes "fname @ js ''-page'' @ show_nat p @ js ''-chunk-'' @ show_nat i
         = fname @ js ''-page'' @ show_nat p' @ js ''-chunk-'' @ show_nat i'"
  shows "p = p' \<and> i = i'"
proof -
  have dash: "js ''-chunk-'' = 45 # js ''chunk-''"
    by (simp add: js_def)
  from assms have "show_nat p @ 45 # js ''chunk-'' @ show_nat i
                 = show_nat p' @ 45 # js ''chunk-'' @ show_nat i'"
    by (simp add: dash)
  then have "p = p' \<and> js ''chunk-'' @ show_nat i = js ''chunk-'' @ show_nat i'"
    by (rule show_nat_dash_split)
  then show ?thesis
    by (simp add: show_nat_inj)
qed

lemma distinct_concat_indexed:
  assumes "distinct ps" and "\<And>p i p' i'. f p i = f p' i' \<Longrightarrow> p = p' \<and> i = i'"
  shows "distinct (concat (map (\<lambda>p. map (f p) [0..<n p]) ps))"
  using assms(1)
proof (induction ps)
  case Nil
  show ?case by simp
next
  case (Cons p ps)
  have "inj_on (f p) (set [0..<n p])"
    by (rule inj_onI) (use assms(2) in blast)
  then have "distinct (map (f p) [0..<n p])"
    by (simp add: distinct_map)
  moreover have "set (map (f p) [0..<n p]) \<inter> set (concat (map (\<lambda>p. map (f p) [0..<n p]) ps)) = {}"
    using Cons.prems assms(2) by fastforce
  ultimately show ?case
    using Cons by simp
qed

lemma chunkByPages_ids_distinct: "distinct (map chunk_id (chunkByPages pages fname options))"
proof -
  have "map chunk_id (chunkByPages pages fname options)
      = concat (map (\<lambda>p. map (\<lambda>i. fname @ js ''-page'' @ show_nat p @ js ''-chunk-'' @ show_nat i)
                              [0..<length (chunkText (pages ! (p - 1)) fname options)])
                    [1..<length pages + 1])"
    by (simp add: chunkByPages_refines chunkByPages_spec_def page_chunks_def map_concat comp_def
        relabel_def Let_def del: upt_Suc)
  moreover have "distinct (concat (map (\<lambda>p. map (\<lambda>i. fname @ js ''-page'' @ show_nat p @ js ''-chunk-'' @ show_nat i)
                              [0..<length (chunkText (pages ! (p - 1)) fname options)])
                    [1..<length pages + 1]))"
    by (rule distinct_concat_indexed) (simp, rule page_id_inj)
  ultimately show ?thesis by simp
qed

text \<open>
  Claim C9. For every text, list of pages, filename and options, the ids of the chunks of
  one call of \<^verbatim>\<open>chunkText\<close> are pairwise distinct, and so are the ids of the chunks of
  one call of \<^verbatim>\<open>chunkByPages\<close>.
\<close>

theorem chunk_ids_distinct:
  "distinct (map chunk_id (chunkText text fname options))
   \<and> distinct (map chunk_id (chunkByPages pages fname options))"
  using chunkText_ids_distinct chunkByPages_ids_distinct by blast

subsection \<open>The size of a chunk\<close>

lemma length_js_slice_le: "length (js_slice s k) \<le> length s"
  by (simp add: js_slice_def Let_def)

lemma length_getOverlapText_le:
  assumes "1 \<le> N" and "N < int (length t)"
  shows "length (getOverlapText t N) \<le> nat N"
proof -
  let ?e = "js_slice t (- N)"
  have e: "length ?e = nat N"
    using assms by (simp add: js_slice_last lastN_def)
  have "length (trim (js_slice ?e k)) \<le> length ?e" for k
    using length_trim_le [of "js_slice ?e k"] length_js_slice_le [of ?e k] by simp
  then have "length (getOverlapText t N) \<le> length ?e"
    using assms by (simp add: getOverlapText_def Let_def)
  with e show ?thesis by simp
qed

lemma chunk_step_bound:
  assumes opts: "chunkSize opts = 100" "chunkOverlap opts = 20" "minChunkSize opts = 100"
    and s: "length (trim s) + 1 \<le> S"
    and cur: "length cur \<le> 100 + S"
    and chunks: "\<forall>c \<in> set chunks. length (content c) \<le> 100 + S"
    and step: "chunk_step fname opts (chunks, cur, idx) s = (chunks', cur', idx')"
  shows "length cur' \<le> 100 + S \<and> (\<forall>c \<in> set chunks'. length (content c) \<le> 100 + S)"
proof (cases "int (length cur) + int (length (trim s @ [dot])) > chunkSize opts
           \<and> int (length cur) \<ge> minChunkSize opts")
  case True
  then have long: "100 \<le> length cur"
    using opts by simp
  then have "length (getOverlapText cur 20) \<le> nat 20"
    by (intro length_getOverlapText_le) simp_all
  moreover from True step have "cur' = getOverlapText cur 20 @ [space] @ trim s @ [dot]"
    and "chunks' = chunks @ [mk_chunk fname cur idx]"
    using opts by (auto simp: chunk_step_def Let_def split: if_splits)
  moreover have "length (content (mk_chunk fname cur idx)) \<le> length cur"
    by (simp add: mk_chunk_def length_trim_le)
  ultimately show ?thesis
    using s cur chunks by auto
next
  case False
  with step have "cur' = cur @ (if cur \<noteq> [] then [space] else []) @ trim s @ [dot]"
    and "chunks' = chunks"
    by (auto simp: chunk_step_def Let_def split: if_splits)
  moreover from False have "length cur < 100"
    using opts by (simp add: not_le) arith
  ultimately show ?thesis
    using s chunks by auto
qed

lemma chunk_loop_bound:
  assumes opts: "chunkSize opts = 100" "chunkOverlap opts = 20" "minChunkSize opts = 100"
    and "\<forall>s \<in> set sentences. length (trim s) + 1 \<le> S"
    and "length cur \<le> 100 + S"
    and "\<forall>c \<in> set chunks. length (content c) \<le> 100 + S"
    and "chunk_loop fname opts (chunks, cur, idx) sentences = (chunks', cur', idx')"
  shows "length cur' \<le> 100 + S \<and> (\<forall>c \<in> set chunks'. length (content c) \<le> 100 + S)"
  using assms(4-)
proof (induction sentences arbitrary: chunks cur idx)
  case Nil
  then show ?case by simp
next
  case (Cons s sentences)
  obtain chunks1 cur1 idx1 where
    step: "chunk_step fname opts (chunks, cur, idx) s = (chunks1, cur1, idx1)"
    by (cases "chunk_step fname opts (chunks, cur, idx) s")
  from Cons.prems(1) have s: "length (trim s) + 1 \<le> S"
    by simp
  from chunk_step_bound [OF opts s Cons.prems(2) Cons.prems(3) step]
  have "length cur1 \<le> 100 + S" and "\<forall>c \<in> set chunks1. length (content c) \<le> 100 + S"
    by simp_all
  moreover from Cons.prems(1) have "\<forall>s \<in> set sentences. length (trim s) + 1 \<le> S"
    by simp
  moreover from Cons.prems(4) step
  have "chunk_loop fname opts (chunks1, cur1, idx1) sentences = (chunks', cur', idx')"
    by simp
  ultimately show ?case
    using Cons.IH by blast
qed

lemma foldr_max_bound:
  "\<forall>s \<in> set ss. f s \<le> foldr (\<lambda>s m. max (f s) m) ss (0::nat)"
  by (induction ss) (auto simp: max_def)

lemma sentence_slack_bound:
  "\<forall>s \<in> set (sentences_of text). length (trim s) + 1 \<le> sentence_slack text"
  unfolding sentence_slack_def by (rule foldr_max_bound)

lemma content_set_totalChunks: "content (set_totalChunks n c) = content c"
  by (simp add: set_totalChunks_def)

text \<open>
  Claim C4. With \<^verbatim>\<open>chunkSize = 100\<close>, \<^verbatim>\<open>chunkOverlap = 20\<close> and \<^verbatim>\<open>minChunkSize\<close> left at
  its default, for every text and filename every chunk of \<^verbatim>\<open>chunkText\<close> has a content of
  at most \<^verbatim>\<open>100 + S\<close> characters, where \<^verbatim>\<open>S\<close> is the greatest length of a sentence of the
  text, trimmed and with its \<^verbatim>\<open>.\<close> (\<^const>\<open>sentence_slack\<close>).
\<close>

theorem chunkText_size_bound:
  assumes "opt_chunkSize options = Some 100" and "opt_chunkOverlap options = Some 20"
    and "opt_minChunkSize options = None"
  shows "\<forall>c \<in> set (chunkText text fname options).
           length (content c) \<le> 100 + sentence_slack text"
proof (cases "text = [] \<or> length (trim text) = 0 \<or> length (sentences_of text) = 0")
  case True
  then have "chunkText text fname options = []"
    by (auto simp: chunkText_def)
  then show ?thesis by simp
next
  case False
  let ?opts = "resolve_options options"
  have opts: "chunkSize ?opts = 100" "chunkOverlap ?opts = 20" "minChunkSize ?opts = 100"
    using assms by (simp_all add: resolve_options_def DEFAULT_CHUNKING_OPTIONS_def)
  obtain chunks cur idx where
    loop: "chunk_loop fname ?opts ([], [], 0) (sentences_of text) = (chunks, cur, idx)"
    by (cases "chunk_loop fname ?opts ([], [], 0) (sentences_of text)")
  have b: "length cur \<le> 100 + sentence_slack text
      \<and> (\<forall>c \<in> set chunks. length (content c) \<le> 100 + sentence_slack text)"
    by (rule chunk_loop_bound [OF opts sentence_slack_bound _ _ loop]) simp_all
  then have "length (content (mk_chunk fname cur idx)) \<le> 100 + sentence_slack text"
    using length_trim_le [of cur] by (simp add: mk_chunk_def)
  with b False loop show ?thesis
    by (auto simp: chunkText_def content_set_totalChunks)
qed


text \<open>
  A text of three sentences of 60, 60 and 1 characters. The first two are joined (the
  accumulator has 61 characters, below \<^verbatim>\<open>minChunkSize\<close>, when the second arrives) into a
  chunk of 123 characters, which is above \<^verbatim>\<open>chunkSize\<close> and within the bound 100 + 61.
\<close>

lemma long_text_chunks:
  "map (\<lambda>c. length (content c))
     (chunkText (js ''aaaaaaaaaaaaaaaaaaaaaaaaaaaaaaaaaaaaaaaaaaaaaaaaaaaaaaaaaaaa. bbbbbbbbbbbbbbbbbbbbbbbbbbbbbbbbbbbbbbbbbbbbbbbbbbbbbbbbbbbb. c!'')
        fname \<lparr>opt_chunkSize = Some 100, opt_chunkOverlap = Some 20, opt_minChunkSize = None\<rparr>)
   = [123, 2]"
proof -
  define X where "X = js ''aaaaaaaaaaaaaaaaaaaaaaaaaaaaaaaaaaaaaaaaaaaaaaaaaaaaaaaaaaaa. bbbbbbbbbbbbbbbbbbbbbbbbbbbbbbbbbbbbbbbbbbbbbbbbbbbbbbbbbbbb. c!''"
  have s: "sentences_of X
   = [js ''aaaaaaaaaaaaaaaaaaaaaaaaaaaaaaaaaaaaaaaaaaaaaaaaaaaaaaaaaaaa'',
      js '' bbbbbbbbbbbbbbbbbbbbbbbbbbbbbbbbbbbbbbbbbbbbbbbbbbbbbbbbbbbb'', js '' c'']"
    unfolding X_def by (simp add: sentences_of_def js_def is_term_def trim_def is_ws_def)
  have "trim X \<noteq> []" and "X \<noteq> []"
    unfolding X_def by (simp_all add: js_def trim_def is_ws_def)
  then have "map (\<lambda>c. length (content c)) (chunkText X fname \<lparr>opt_chunkSize = Some 100, opt_chunkOverlap = Some 20, opt_minChunkSize = None\<rparr>) = [123, 2]"
    by (simp add: chunkText_def s resolve_options_def
        DEFAULT_CHUNKING_OPTIONS_def chunk_step_def mk_chunk_def set_totalChunks_def
        getOverlapText_def js_slice_def lastIndexOf_def js_def trim_def is_ws_def dot_def
        space_def)
  then show ?thesis
    unfolding X_def .
qed

theorem chunkText_size_bound_witness:
  "length (content (chunkText (js ''aaaaaaaaaaaaaaaaaaaaaaaaaaaaaaaaaaaaaaaaaaaaaaaaaaaaaaaaaaaa. bbbbbbbbbbbbbbbbbbbbbbbbbbbbbbbbbbbbbbbbbbbbbbbbbbbbbbbbbbbb. c!'')
      (js ''f'') \<lparr>opt_chunkSize = Some 100, opt_chunkOverlap = Some 20, opt_minChunkSize = None\<rparr> ! 0)) = 123
   \<and> 123 \<le> 100 + sentence_slack (js ''aaaaaaaaaaaaaaaaaaaaaaaaaaaaaaaaaaaaaaaaaaaaaaaaaaaaaaaaaaaa. bbbbbbbbbbbbbbbbbbbbbbbbbbbbbbbbbbbbbbbbbbbbbbbbbbbbbbbbbbbb. c!'')"
proof -
  define X where "X = js ''aaaaaaaaaaaaaaaaaaaaaaaaaaaaaaaaaaaaaaaaaaaaaaaaaaaaaaaaaaaa. bbbbbbbbbbbbbbbbbbbbbbbbbbbbbbbbbbbbbbbbbbbbbbbbbbbbbbbbbbbb. c!''"
  define r where "r = chunkText X (js ''f'') \<lparr>opt_chunkSize = Some 100, opt_chunkOverlap = Some 20, opt_minChunkSize = None\<rparr>"
  have lens: "map (\<lambda>c. length (content c)) r = [123, 2]"
    unfolding r_def X_def by (rule long_text_chunks)
  then have "length (map (\<lambda>c. length (content c)) r) = 2"
    by simp
  then have len: "length r = 2"
    by simp
  then have "r ! 0 \<in> set r"
    by simp
  with chunkText_size_bound [of "\<lparr>opt_chunkSize = Some 100, opt_chunkOverlap = Some 20, opt_minChunkSize = None\<rparr>" X "js ''f''"]
  have "length (content (r ! 0)) \<le> 100 + sentence_slack X"
    by (simp add: r_def)
  moreover from len have "map (\<lambda>c. length (content c)) r ! 0 = length (content (r ! 0))"
    by simp
  with lens have "length (content (r ! 0)) = 123"
    by simp
  ultimately show ?thesis
    unfolding r_def X_def by simp
qed

subsection \<open>The index loops of the merger and the recursion on the list\<close>

lemma absorb_run_suffix:
  "absorb_run minSize cur chunks = (cur', rest) \<Longrightarrow> \<exists>taken. chunks = taken @ rest"
proof (induction chunks arbitrary: cur)
  case Nil
  then show ?case by simp
next
  case (Cons n chunks)
  show ?case
  proof (cases "int (length (content cur)) < minSize
         \<and> filename (metadata n) = filename (metadata cur)")
    case True
    with Cons.prems have "absorb_run minSize (absorb cur n) chunks = (cur', rest)"
      by simp
    from Cons.IH [OF this] obtain taken where "chunks = taken @ rest" ..
    then have "n # chunks = (n # taken) @ rest"
      by simp
    then show ?thesis ..
  next
    case False
    with Cons.prems have "n # chunks = [] @ rest"
      by auto
    then show ?thesis ..
  qed
qed

lemma merge_inner_absorb_run:
  "i < length chunks \<Longrightarrow>
   merge_inner chunks minSize i cur =
     (case absorb_run minSize cur (drop (i + 1) chunks) of
        (cur', rest) \<Rightarrow> (length chunks - 1 - length rest, cur'))"
proof (induction chunks minSize i cur rule: merge_inner.induct)
  case (1 chunks minSize i cur)
  show ?case
  proof (cases "i + 1 < length chunks")
    case False
    with "1.prems" show ?thesis
      by (subst merge_inner.simps) simp
  next
    case inb: True
    then have d: "drop (Suc i) chunks = chunks ! Suc i # drop (Suc (Suc i)) chunks"
      by (simp add: Cons_nth_drop_Suc)
    show ?thesis
    proof (cases "int (length (content cur)) < minSize
         \<and> filename (metadata (chunks ! (i + 1))) = filename (metadata cur)")
      case True
      with inb have c: "i + 1 < length chunks
         \<and> int (length (content cur)) < minSize
         \<and> filename (metadata (chunks ! (i + 1))) = filename (metadata cur)"
        by simp
      from "1.IH" [OF c inb] c show ?thesis
        by (subst merge_inner.simps) (simp add: d)
    next
      case False
      with inb show ?thesis
        by (subst merge_inner.simps) (auto simp: d)
    qed
  qed
qed

lemma merge_outer_merge_list:
  "i \<le> length chunks \<Longrightarrow>
   merge_outer chunks minSize i mergedChunks = mergedChunks @ merge_list minSize (drop i chunks)"
proof (induction chunks minSize i mergedChunks rule: merge_outer.induct)
  case (1 chunks minSize i mergedChunks)
  show ?case
  proof (cases "i < length chunks")
    case False
    with "1.prems" show ?thesis
      by (subst merge_outer.simps) simp
  next
    case True
    obtain cur rest where ar: "absorb_run minSize (chunks ! i) (drop (i + 1) chunks) = (cur, rest)"
      by (cases "absorb_run minSize (chunks ! i) (drop (i + 1) chunks)")
    from absorb_run_suffix [OF ar] obtain taken where t: "drop (i + 1) chunks = taken @ rest" ..
    then have "length (drop (i + 1) chunks) = length taken + length rest"
      by simp
    with True have lt: "length rest < length chunks"
      by simp
    then have idx: "length chunks - 1 - length rest + 1 = length chunks - length rest"
      by simp
    then have le: "length chunks - 1 - length rest + 1 \<le> length chunks"
      by simp
    have "chunks = (take (i + 1) chunks @ taken) @ rest"
      using t by (metis append.assoc append_take_drop_id)
    then have "drop (length chunks - length rest) chunks = rest"
      by (metis add_diff_cancel_right' append_eq_conv_conj length_append)
    with idx have dr: "drop (length chunks - 1 - length rest + 1) chunks = rest"
      by simp
    have mi: "merge_inner chunks minSize i (chunks ! i) = (length chunks - 1 - length rest, cur)"
      using True ar by (simp add: merge_inner_absorb_run)
    have "merge_outer chunks minSize i mergedChunks
        = merge_outer chunks minSize (length chunks - 1 - length rest + 1) (mergedChunks @ [cur])"
      using True mi by (subst merge_outer.simps) simp
    also have "\<dots> = (mergedChunks @ [cur]) @ merge_list minSize rest"
      using "1.IH" [OF True mi [symmetric] le] dr by simp
    also have "\<dots> = mergedChunks @ merge_list minSize (drop i chunks)"
    proof -
      have "drop i chunks = chunks ! i # drop (i + 1) chunks"
        using True by (simp add: Cons_nth_drop_Suc)
      then show ?thesis
        using ar by simp
    qed
    finally show ?thesis .
  qed
qed

lemma mergeSmallChunks_merge_list: "mergeSmallChunks chunks minSize = merge_list minSize chunks"
  by (simp add: mergeSmallChunks_def merge_outer_merge_list)


subsection \<open>Merging keeps the text\<close>

lemma join_sp_Cons: "join_sp (x # xs) = (if xs = [] then x else x @ [space] @ join_sp xs)"
  by (cases xs) simp_all

lemma join_sp_absorbed: "join_sp ((a @ [space] @ b) # xs) = join_sp (a # b # xs)"
  by (simp add: join_sp_Cons)

lemma join_sp_append:
  "xs \<noteq> [] \<Longrightarrow> ys \<noteq> [] \<Longrightarrow> join_sp (xs @ ys) = join_sp xs @ [space] @ join_sp ys"
  by (induction xs rule: join_sp.induct) (simp_all add: join_sp_Cons)

lemma absorb_run_content:
  "absorb_run minSize cur chunks = (cur', rest) \<Longrightarrow>
   \<exists>taken. chunks = taken @ rest \<and> content cur' = join_sp (content cur # map content taken)"
proof (induction chunks arbitrary: cur)
  case Nil
  then show ?case by simp
next
  case (Cons n chunks)
  show ?case
  proof (cases "int (length (content cur)) < minSize
         \<and> filename (metadata n) = filename (metadata cur)")
    case True
    with Cons.prems have "absorb_run minSize (absorb cur n) chunks = (cur', rest)"
      by simp
    from Cons.IH [OF this] obtain taken where
      t: "chunks = taken @ rest"
      and c: "content cur' = join_sp (content (absorb cur n) # map content taken)"
      by blast
    have "content (absorb cur n) = content cur @ [space] @ content n"
      by (simp add: absorb_def)
    with c have "content cur' = join_sp (content cur # map content (n # taken))"
      by (simp only: join_sp_absorbed list.map)
    moreover from t have "n # chunks = (n # taken) @ rest"
      by simp
    ultimately show ?thesis by blast
  next
    case False
    with Cons.prems have "n # chunks = [] @ rest" and "content cur' = join_sp (content cur # map content [])"
      by auto
    then show ?thesis by blast
  qed
qed

lemma merge_list_runs:
  "\<exists>runs. concat runs = chunks \<and> [] \<notin> set runs
     \<and> map content (merge_list minSize chunks) = map (\<lambda>r. join_sp (map content r)) runs"
proof (induction minSize chunks rule: merge_list.induct)
  case (1 minSize)
  have "concat [] = ([] :: DocumentChunk list) \<and> [] \<notin> set ([] :: DocumentChunk list list)
     \<and> map content (merge_list minSize []) = map (\<lambda>r. join_sp (map content r)) []"
    by simp
  then show ?case by blast
next
  case (2 minSize chunk chunks)
  obtain cur rest where ar: "absorb_run minSize chunk chunks = (cur, rest)"
    by (cases "absorb_run minSize chunk chunks")
  from absorb_run_content [OF ar] obtain taken where
    t: "chunks = taken @ rest" and c: "content cur = join_sp (content chunk # map content taken)"
    by blast
  from "2.IH" [OF ar [symmetric]] obtain runs where
    r: "concat runs = rest" "[] \<notin> set runs"
      "map content (merge_list minSize rest) = map (\<lambda>r. join_sp (map content r)) runs"
    by blast
  have "concat ((chunk # taken) # runs) = chunk # chunks"
    using t r(1) by simp
  moreover have "[] \<notin> set ((chunk # taken) # runs)"
    using r(2) by simp
  moreover have "map content (merge_list minSize (chunk # chunks))
      = map (\<lambda>r. join_sp (map content r)) ((chunk # taken) # runs)"
    using ar c r(3) by simp
  ultimately show ?case by blast
qed

lemma join_sp_runs:
  "[] \<notin> set runs \<Longrightarrow>
   join_sp (map (\<lambda>r. join_sp (map content r)) runs) = join_sp (map content (concat runs))"
proof (induction runs)
  case Nil
  show ?case by simp
next
  case (Cons r runs)
  then have r: "r \<noteq> []" and rs: "[] \<notin> set runs"
    by auto
  show ?case
  proof (cases "runs = []")
    case True
    then show ?thesis by simp
  next
    case False
    with rs have "concat runs \<noteq> []"
      by (cases runs) auto
    with r have "join_sp (map content (r @ concat runs))
        = join_sp (map content r) @ [space] @ join_sp (map content (concat runs))"
      by (simp add: join_sp_append)
    with False Cons.IH [OF rs] show ?thesis
      by (simp add: join_sp_Cons)
  qed
qed

text \<open>
  Claim C10. For every list of chunks and every \<^verbatim>\<open>minSize\<close>, joining the contents of
  \<^verbatim>\<open>mergeSmallChunks(cs, minSize)\<close> with single spaces gives the same string as joining
  the contents of \<^verbatim>\<open>cs\<close>. More precisely the input splits into consecutive non-empty
  runs, and the contents of the output chunks are, in order, the space-joins of the
  contents of these runs: nothing is lost, duplicated or reordered.
\<close>

theorem mergeSmallChunks_preserves_text:
  "join_sp (map content (mergeSmallChunks chunks minSize)) = join_sp (map content chunks)
   \<and> (\<exists>runs. concat runs = chunks \<and> [] \<notin> set runs
         \<and> map content (mergeSmallChunks chunks minSize)
             = map (\<lambda>r. join_sp (map content r)) runs)"
proof -
  obtain runs where
    r: "concat runs = chunks" "[] \<notin> set runs"
      "map content (merge_list minSize chunks) = map (\<lambda>r. join_sp (map content r)) runs"
    using merge_list_runs by blast
  then have "join_sp (map content (merge_list minSize chunks)) = join_sp (map content chunks)"
    using join_sp_runs [of runs] by simp
  with r show ?thesis
    unfolding mergeSmallChunks_merge_list by blast
qed

subsection \<open>Merging twice\<close>

lemma absorb_filename: "filename (metadata (absorb cur n)) = filename (metadata cur)"
  by (simp add: absorb_def)

lemma absorb_run_filename:
  "absorb_run minSize cur chunks = (cur', rest) \<Longrightarrow>
   filename (metadata cur') = filename (metadata cur)"
proof (induction chunks arbitrary: cur)
  case Nil
  then show ?case by simp
next
  case (Cons n chunks)
  then show ?case
    by (fastforce simp: absorb_filename split: if_splits)
qed

lemma absorb_run_stop:
  "absorb_run minSize cur chunks = (cur', n # rest) \<Longrightarrow>
   \<not> (int (length (content cur')) < minSize
      \<and> filename (metadata n) = filename (metadata cur'))"
proof (induction chunks arbitrary: cur)
  case Nil
  then show ?case by simp
next
  case (Cons x chunks)
  show ?case
  proof (cases "int (length (content cur)) < minSize
         \<and> filename (metadata x) = filename (metadata cur)")
    case True
    with Cons.prems have "absorb_run minSize (absorb cur x) chunks = (cur', n # rest)"
      by simp
    then show ?thesis
      by (rule Cons.IH)
  next
    case False
    with Cons.prems have "cur' = cur" and "n = x"
      by auto
    with False show ?thesis by simp
  qed
qed

lemma merge_list_hd_filename:
  "merge_list minSize (n # rest) ! 0 = c \<Longrightarrow> filename (metadata c) = filename (metadata n)"
  by (auto split: prod.splits dest: absorb_run_filename)

lemma merge_list_settled:
  "i + 1 < length (merge_list minSize chunks) \<Longrightarrow>
   \<not> (int (length (content (merge_list minSize chunks ! i))) < minSize
      \<and> filename (metadata (merge_list minSize chunks ! (i + 1)))
          = filename (metadata (merge_list minSize chunks ! i)))"
proof (induction minSize chunks arbitrary: i rule: merge_list.induct)
  case (1 minSize)
  then show ?case by simp
next
  case (2 minSize chunk chunks)
  obtain cur rest where ar: "absorb_run minSize chunk chunks = (cur, rest)"
    by (cases "absorb_run minSize chunk chunks")
  then have ml: "merge_list minSize (chunk # chunks) = cur # merge_list minSize rest"
    by simp
  show ?case
  proof (cases i)
    case 0
    with "2.prems" ml have "merge_list minSize rest \<noteq> []"
      by auto
    then obtain n rest' where rest: "rest = n # rest'"
      by (cases rest) auto
    have "filename (metadata (merge_list minSize rest ! 0)) = filename (metadata n)"
      unfolding rest by (rule merge_list_hd_filename) simp
    moreover from ar rest
    have "\<not> (int (length (content cur)) < minSize
      \<and> filename (metadata n) = filename (metadata cur))"
      by (intro absorb_run_stop) simp
    ultimately show ?thesis
      using 0 ml by simp
  next
    case (Suc k)
    with "2.prems" ml have "k + 1 < length (merge_list minSize rest)"
      by simp
    from "2.IH" [OF ar [symmetric] this] show ?thesis
      using Suc ml by simp
  qed
qed

lemma merge_list_fixpoint:
  "(\<And>i. i + 1 < length chunks \<Longrightarrow>
      \<not> (int (length (content (chunks ! i))) < minSize
         \<and> filename (metadata (chunks ! (i + 1))) = filename (metadata (chunks ! i))))
   \<Longrightarrow> merge_list minSize chunks = chunks"
proof (induction chunks)
  case Nil
  show ?case by simp
next
  case (Cons c chunks)
  show ?case
  proof (cases chunks)
    case Nil
    then show ?thesis by simp
  next
    case (Cons n rest)
    from Cons.prems [of 0] Cons
    have stop: "\<not> (int (length (content c)) < minSize
         \<and> filename (metadata n) = filename (metadata c))"
      by simp
    have "merge_list minSize chunks = chunks"
    proof (rule Cons.IH)
      fix i assume "i + 1 < length chunks"
      with Cons.prems [of "Suc i"]
      show "\<not> (int (length (content (chunks ! i))) < minSize
         \<and> filename (metadata (chunks ! (i + 1))) = filename (metadata (chunks ! i)))"
        by simp
    qed
    with stop Cons show ?thesis
      by auto
  qed
qed

text \<open>
  Claim C5. \<^verbatim>\<open>mergeSmallChunks\<close> is idempotent: for every list of chunks and every
  \<^verbatim>\<open>minSize\<close>, merging the merged list again with the same \<^verbatim>\<open>minSize\<close> changes
  nothing. No chunk of the merged list that is still below \<^verbatim>\<open>minSize\<close> is mergeable: the
  chunk that follows it in the list, if there is one, has another filename.
\<close>

theorem mergeSmallChunks_idempotent:
  "mergeSmallChunks (mergeSmallChunks chunks minSize) minSize = mergeSmallChunks chunks minSize
   \<and> (\<forall>i. i + 1 < length (mergeSmallChunks chunks minSize) \<longrightarrow>
         \<not> (int (length (content (mergeSmallChunks chunks minSize ! i))) < minSize
            \<and> filename (metadata (mergeSmallChunks chunks minSize ! (i + 1)))
                = filename (metadata (mergeSmallChunks chunks minSize ! i))))"
  unfolding mergeSmallChunks_merge_list
  using merge_list_settled [of _ minSize chunks]
  by (simp add: merge_list_fixpoint)

text \<open>
  Three short chunks of two files: the first cannot absorb the second, which is of another
  file; the second absorbs the third and the input ends. Both results stay below
  \<^verbatim>\<open>minSize = 20\<close>, and merging them again returns them unchanged.
\<close>

theorem mergeSmallChunks_idempotent_witness:
  "mergeSmallChunks
     [\<lparr>chunk_id = js ''a-0'', content = js ''Short'',
       metadata = \<lparr>filename = js ''a'', page = None, chunkIndex = 0, totalChunks = 1\<rparr>\<rparr>,
      \<lparr>chunk_id = js ''b-0'', content = js ''Also short'',
       metadata = \<lparr>filename = js ''b'', page = None, chunkIndex = 0, totalChunks = 2\<rparr>\<rparr>,
      \<lparr>chunk_id = js ''b-1'', content = js ''x'',
       metadata = \<lparr>filename = js ''b'', page = None, chunkIndex = 1, totalChunks = 2\<rparr>\<rparr>] 20
   = [\<lparr>chunk_id = js ''a-0'', content = js ''Short'',
       metadata = \<lparr>filename = js ''a'', page = None, chunkIndex = 0, totalChunks = 1\<rparr>\<rparr>,
      \<lparr>chunk_id = js ''b-0'', content = js ''Also short x'',
       metadata = \<lparr>filename = js ''b'', page = None, chunkIndex = 0, totalChunks = 1\<rparr>\<rparr>]
   \<and> mergeSmallChunks
     [\<lparr>chunk_id = js ''a-0'', content = js ''Short'',
       metadata = \<lparr>filename = js ''a'', page = None, chunkIndex = 0, totalChunks = 1\<rparr>\<rparr>,
      \<lparr>chunk_id = js ''b-0'', content = js ''Also short x'',
       metadata = \<lparr>filename = js ''b'', page = None, chunkIndex = 0, totalChunks = 1\<rparr>\<rparr>] 20
   = [\<lparr>chunk_id = js ''a-0'', content = js ''Short'',
       metadata = \<lparr>filename = js ''a'', page = None, chunkIndex = 0, totalChunks = 1\<rparr>\<rparr>,
      \<lparr>chunk_id = js ''b-0'', content = js ''Also short x'',
       metadata = \<lparr>filename = js ''b'', page = None, chunkIndex = 0, totalChunks = 1\<rparr>\<rparr>]
   \<and> filename (metadata (mergeSmallChunks
     [\<lparr>chunk_id = js ''a-0'', content = js ''Short'',
       metadata = \<lparr>filename = js ''a'', page = None, chunkIndex = 0, totalChunks = 1\<rparr>\<rparr>,
      \<lparr>chunk_id = js ''b-0'', content = js ''Also short'',
       metadata = \<lparr>filename = js ''b'', page = None, chunkIndex = 0, totalChunks = 2\<rparr>\<rparr>,
      \<lparr>chunk_id = js ''b-1'', content = js ''x'',
       metadata = \<lparr>filename = js ''b'', page = None, chunkIndex = 1, totalChunks = 2\<rparr>\<rparr>] 20 ! 1))
     \<noteq> filename (metadata (mergeSmallChunks
     [\<lparr>chunk_id = js ''a-0'', content = js ''Short'',
       metadata = \<lparr>filename = js ''a'', page = None, chunkIndex = 0, totalChunks = 1\<rparr>\<rparr>,
      \<lparr>chunk_id = js ''b-0'', content = js ''Also short'',
       metadata = \<lparr>filename = js ''b'', page = None, chunkIndex = 0, totalChunks = 2\<rparr>\<rparr>,
      \<lparr>chunk_id = js ''b-1'', content = js ''x'',
       metadata = \<lparr>filename = js ''b'', page = None, chunkIndex = 1, totalChunks = 2\<rparr>\<rparr>] 20 ! 0))"
proof -
  define cs where "cs =
     [\<lparr>chunk_id = js ''a-0'', content = js ''Short'',
       metadata = \<lparr>filename = js ''a'', page = None, chunkIndex = 0, totalChunks = 1\<rparr>\<rparr>,
      \<lparr>chunk_id = js ''b-0'', content = js ''Also short'',
       metadata = \<lparr>filename = js ''b'', page = None, chunkIndex = 0, totalChunks = 2\<rparr>\<rparr>,
      \<lparr>chunk_id = js ''b-1'', content = js ''x'',
       metadata = \<lparr>filename = js ''b'', page = None, chunkIndex = 1, totalChunks = 2\<rparr>\<rparr>]"
  define out where "out =
     [\<lparr>chunk_id = js ''a-0'', content = js ''Short'',
       metadata = \<lparr>filename = js ''a'', page = None, chunkIndex = 0, totalChunks = 1\<rparr>\<rparr>,
      \<lparr>chunk_id = js ''b-0'', content = js ''Also short x'',
       metadata = \<lparr>filename = js ''b'', page = None, chunkIndex = 0, totalChunks = 1\<rparr>\<rparr>]"
  have m: "mergeSmallChunks cs 20 = out"
    unfolding cs_def out_def
    by (simp add: mergeSmallChunks_def merge_outer.simps merge_inner.simps absorb_def js_def
        space_def)
  have idem: "mergeSmallChunks (mergeSmallChunks cs 20) 20 = mergeSmallChunks cs 20"
    and settled: "0 + 1 < length (mergeSmallChunks cs 20) \<longrightarrow>
         \<not> (int (length (content (mergeSmallChunks cs 20 ! 0))) < 20
            \<and> filename (metadata (mergeSmallChunks cs 20 ! (0 + 1)))
                = filename (metadata (mergeSmallChunks cs 20 ! 0)))"
    using mergeSmallChunks_idempotent [of cs 20] by blast+
  have "0 + 1 < length (mergeSmallChunks cs 20)"
    and "int (length (content (mergeSmallChunks cs 20 ! 0))) < 20"
    unfolding m by (simp_all add: out_def js_def)
  with settled have "filename (metadata (mergeSmallChunks cs 20 ! 1))
     \<noteq> filename (metadata (mergeSmallChunks cs 20 ! 0))"
    by simp
  moreover from idem have "mergeSmallChunks out 20 = out"
    unfolding m .
  ultimately show ?thesis
    using m unfolding cs_def out_def by simp
qed

end
